theory Spec2Isabelle
  imports Main "HOL-Library.Word"
begin

section \<open>JavaScript strings\<close>

text \<open>
  A JavaScript string is a sequence of UTF-16 code units; \<open>length\<close>, \<open>split\<close>,
  \<open>trim\<close> and the regular expressions of the components (none has the \<open>u\<close> flag)
  all work on code units. \<open>js\<close> embeds an ASCII literal.
\<close>

type_synonym code_unit = "16 word"
type_synonym jsstring = "code_unit list"

definition js :: "string \<Rightarrow> jsstring" where
  "js s = map of_char s"

definition LF :: code_unit where
  "LF = 0xA"

text \<open>
  ECMAScript \<open>WhiteSpace\<close> and \<open>LineTerminator\<close> code points: what
  \<open>String.prototype.trim\<close> strips and what \<open>\s\<close> matches.
\<close>

definition isWhiteSpace :: "code_unit \<Rightarrow> bool" where
  "isWhiteSpace c \<longleftrightarrow>
     c \<in> set [0x9, 0xA, 0xB, 0xC, 0xD, 0x20, 0xA0, 0x1680, 0x2028, 0x2029,
                0x202F, 0x205F, 0x3000, 0xFEFF]
     \<or> (0x2000 \<le> c \<and> c \<le> 0x200A)"

text \<open>\<open>\d\<close>\<close>

definition isDigit :: "code_unit \<Rightarrow> bool" where
  "isDigit c \<longleftrightarrow> 0x30 \<le> c \<and> c \<le> 0x39"

text \<open>\<open>.\<close> without the \<open>s\<close> flag: any code unit but a line terminator.\<close>

definition isDot :: "code_unit \<Rightarrow> bool" where
  "isDot c \<longleftrightarrow> c \<notin> set [0xA, 0xD, 0x2028, 0x2029]"

text \<open>\<open>content.split("\n")\<close>: one piece more than there are line feeds.\<close>

fun split_nl :: "jsstring \<Rightarrow> jsstring list" where
  "split_nl [] = [[]]"
| "split_nl (c # cs) =
     (if c = LF then [] # split_nl cs
      else (case split_nl cs of
              [] \<Rightarrow> [[c]]
            | piece # pieces \<Rightarrow> (c # piece) # pieces))"

text \<open>\<open>currentPageLines.join("\n")\<close>; the empty array joins to the empty string.\<close>

fun join_nl :: "jsstring list \<Rightarrow> jsstring" where
  "join_nl [] = []"
| "join_nl [l] = l"
| "join_nl (l # m # ls) = l @ LF # join_nl (m # ls)"

text \<open>\<open>line.trim()\<close>\<close>

definition trim :: "jsstring \<Rightarrow> jsstring" where
  "trim s = rev (dropWhile isWhiteSpace (rev (dropWhile isWhiteSpace s)))"

text \<open>
  \<open>line.replace(":", "")\<close>: a string pattern replaces its first occurrence only.
\<close>

definition replace_colon :: "jsstring \<Rightarrow> jsstring" where
  "replace_colon s = remove1 (of_char CHR '':'') s"

text \<open>\<open>text.split("\n").filter((line) => line.trim() !== "")\<close>, shared by both components.\<close>

definition nonBlankLines :: "jsstring \<Rightarrow> jsstring list" where
  "nonBlankLines text = filter (\<lambda>line. trim line \<noteq> []) (split_nl text)"

section \<open>Regular expressions\<close>

text \<open>
  The patterns of the components use character classes, sequence, alternation and
  the quantifiers \<open>*\<close>, \<open>+\<close>, \<open>?\<close> only, and their results are used as truth values
  only (\<open>match\<close> returns \<open>null\<close> or an array). So a pattern is a regular expression
  over code units, and matching is membership, decided by derivatives.
\<close>

datatype regex =
    Never
  | Empty
  | Class "code_unit \<Rightarrow> bool"
  | Then regex regex
  | Or regex regex
  | Many regex

text \<open>\<open>r+\<close> and \<open>r?\<close>\<close>

definition Many1 :: "regex \<Rightarrow> regex" where
  "Many1 r = Then r (Many r)"

definition Maybe :: "regex \<Rightarrow> regex" where
  "Maybe r = Or r Empty"

text \<open>A literal character of a pattern.\<close>

definition chr :: "char \<Rightarrow> regex" where
  "chr a = Class (\<lambda>c. c = of_char a)"

text \<open>
  A literal character under the \<open>i\<close> flag. Without the \<open>u\<close> flag two code units
  are equal when their canonical (upper case) forms are, and a code unit outside
  ASCII is never canonicalised to one inside; the literals of the patterns here are
  ASCII, so only the two ASCII case forms of a letter are equal to it.
\<close>

definition toUpperAscii :: "code_unit \<Rightarrow> code_unit" where
  "toUpperAscii c = (if 0x61 \<le> c \<and> c \<le> 0x7A then c - 0x20 else c)"

definition chr_i :: "char \<Rightarrow> regex" where
  "chr_i a = Class (\<lambda>c. toUpperAscii c = toUpperAscii (of_char a))"

definition word_i :: "string \<Rightarrow> regex" where
  "word_i s = foldr (\<lambda>a r. Then (chr_i a) r) s Empty"

fun nullable :: "regex \<Rightarrow> bool" where
  "nullable Never = False"
| "nullable Empty = True"
| "nullable (Class p) = False"
| "nullable (Then r s) = (nullable r \<and> nullable s)"
| "nullable (Or r s) = (nullable r \<or> nullable s)"
| "nullable (Many r) = True"

fun deriv :: "code_unit \<Rightarrow> regex \<Rightarrow> regex" where
  "deriv c Never = Never"
| "deriv c Empty = Never"
| "deriv c (Class p) = (if p c then Empty else Never)"
| "deriv c (Then r s) =
     (if nullable r then Or (Then (deriv c r) s) (deriv c s) else Then (deriv c r) s)"
| "deriv c (Or r s) = Or (deriv c r) (deriv c s)"
| "deriv c (Many r) = Then (deriv c r) (Many r)"

fun accepts :: "regex \<Rightarrow> jsstring \<Rightarrow> bool" where
  "accepts r [] = nullable r"
| "accepts r (c # cs) = accepts (deriv c r) cs"

text \<open>
  What it is for a string to match a pattern; \<open>accepts\<close> decides it
  (\<open>accepts_matches\<close> below).
\<close>

inductive matches :: "regex \<Rightarrow> jsstring \<Rightarrow> bool" where
  m_Empty: "matches Empty []"
| m_Class: "p c \<Longrightarrow> matches (Class p) [c]"
| m_Then: "matches r u \<Longrightarrow> matches r' v \<Longrightarrow> matches (Then r r') (u @ v)"
| m_Or1: "matches r u \<Longrightarrow> matches (Or r r') u"
| m_Or2: "matches r' u \<Longrightarrow> matches (Or r r') u"
| m_Many0: "matches (Many r) []"
| m_Many1: "matches r u \<Longrightarrow> matches (Many r) v \<Longrightarrow> matches (Many r) (u @ v)"

text \<open>\<open>s.match(/^r$/)\<close> is not null: the whole of \<open>s\<close> matches \<open>r\<close>.\<close>

definition matchesWhole :: "regex \<Rightarrow> jsstring \<Rightarrow> bool" where
  "matchesWhole r s = accepts r s"

text \<open>\<open>s.match(/^r/)\<close> is not null: a prefix of \<open>s\<close> matches \<open>r\<close>.\<close>

definition matchesStart :: "regex \<Rightarrow> jsstring \<Rightarrow> bool" where
  "matchesStart r s = accepts (Then r (Many (Class (\<lambda>c. True)))) s"

section \<open>SubtopicDetailModal: the patterns\<close>

text \<open>\<open>/^(#+)\s*(.+)$/\<close>\<close>

definition re_hash :: regex where
  "re_hash = Then (Many1 (chr CHR ''#'')) (Then (Many (Class isWhiteSpace)) (Many1 (Class isDot)))"

text \<open>\<open>/^(\s*[-*]|\s*\d+\.)\s*(.+)$/\<close>, in \<open>paginateContent\<close> and again in the rendering.\<close>

definition re_bullet :: regex where
  "re_bullet =
     Then (Or (Then (Many (Class isWhiteSpace))
                    (Class (\<lambda>c. c = of_char CHR ''-'' \<or> c = of_char CHR ''*'')))
              (Then (Many (Class isWhiteSpace))
                    (Then (Many1 (Class isDigit)) (chr CHR ''.''))))
          (Then (Many (Class isWhiteSpace)) (Many1 (Class isDot)))"

text \<open>\<open>/^\*\*([^*]+)\*\*:/\<close>\<close>

definition re_bold_colon :: regex where
  "re_bold_colon =
     Then (chr CHR ''*'') (Then (chr CHR ''*'')
       (Then (Many1 (Class (\<lambda>c. c \<noteq> of_char CHR ''*'')))
         (Then (chr CHR ''*'') (Then (chr CHR ''*'') (chr CHR '':'')))))"

text \<open>\<open>/^\*\*([^*]+)\*\*$/\<close>: the rendering's "simple check for bold (no colon)".\<close>

definition re_bold :: regex where
  "re_bold =
     Then (chr CHR ''*'') (Then (chr CHR ''*'')
       (Then (Many1 (Class (\<lambda>c. c \<noteq> of_char CHR ''*'')))
         (Then (chr CHR ''*'') (chr CHR ''*''))))"

text \<open>\<open>isBullet\<close> and \<open>isBold\<close> of the rendering.\<close>

definition isBullet :: "jsstring \<Rightarrow> bool" where
  "isBullet line = matchesWhole re_bullet line"

definition isBold :: "jsstring \<Rightarrow> bool" where
  "isBold line = matchesWhole re_bold line"

text \<open>
  \<open>isHeading\<close> of \<open>paginateContent\<close>: "markdown headings or numbered/bulleted
  lists", the value of \<open>a || b || c\<close> read as a truth value.
\<close>

definition isHeading :: "jsstring \<Rightarrow> bool" where
  "isHeading line \<longleftrightarrow>
     matchesWhole re_hash line \<or> matchesWhole re_bullet line \<or> matchesStart re_bold_colon line"

section \<open>SubtopicDetailModal: paginateContent\<close>

definition LINES_PER_PAGE :: nat where
  "LINES_PER_PAGE = 15"

definition MIN_LINES_PER_PAGE :: nat where
  "MIN_LINES_PER_PAGE = 10"

text \<open>The two variables the loop updates: \<open>pages\<close> and \<open>currentPageLines\<close>.\<close>

type_synonym pager = "jsstring list \<times> jsstring list"

text \<open>The first \<open>if\<close> of the loop body: "start a new page".\<close>

definition breakBefore :: "pager \<Rightarrow> jsstring \<Rightarrow> pager" where
  "breakBefore st line =
     (case st of (pages, currentPageLines) \<Rightarrow>
        if isHeading line
           \<and> length currentPageLines \<ge> MIN_LINES_PER_PAGE
           \<and> length currentPageLines \<le> LINES_PER_PAGE
        then (pages @ [join_nl currentPageLines], [])
        else (pages, currentPageLines))"

text \<open>\<open>currentPageLines.push(line)\<close>\<close>

definition pushLine :: "pager \<Rightarrow> jsstring \<Rightarrow> pager" where
  "pushLine st line = (case st of (pages, currentPageLines) \<Rightarrow> (pages, currentPageLines @ [line]))"

text \<open>
  The second \<open>if\<close>: the page is full or \<open>index === lines.length - 1\<close>
  (\<open>n\<close> is \<open>lines.length\<close>).
\<close>

definition breakAfter :: "nat \<Rightarrow> pager \<Rightarrow> nat \<Rightarrow> pager" where
  "breakAfter n st index =
     (case st of (pages, currentPageLines) \<Rightarrow>
        if length currentPageLines \<ge> LINES_PER_PAGE \<or> int index = int n - 1
        then (pages @ [join_nl currentPageLines], [])
        else (pages, currentPageLines))"

definition eachLine :: "nat \<Rightarrow> pager \<Rightarrow> jsstring \<Rightarrow> nat \<Rightarrow> pager" where
  "eachLine n st line index = breakAfter n (pushLine (breakBefore st line) line) index"

text \<open>\<open>lines.forEach((line, index) => ...)\<close>, from \<open>index\<close> on.\<close>

fun forEach :: "nat \<Rightarrow> nat \<Rightarrow> jsstring list \<Rightarrow> pager \<Rightarrow> pager" where
  "forEach n index [] st = st"
| "forEach n index (line # rest) st = forEach n (index + 1) rest (eachLine n st line index)"

definition paginateContent :: "jsstring \<Rightarrow> jsstring list" where
  "paginateContent content =
     (let lines = nonBlankLines content
      in case forEach (length lines) 0 lines ([], []) of
           (pages, currentPageLines) \<Rightarrow>
             if length currentPageLines > 0 then pages @ [join_nl currentPageLines]
             else pages)"

text \<open>The lines of a page, as the rendering reads them: \<open>currentContent.split("\n")\<close>.\<close>

definition pageLines :: "jsstring \<Rightarrow> jsstring list" where
  "pageLines page = split_nl page"

section \<open>SubtopicDetailModal: page navigation\<close>

text \<open>
  The updaters passed to \<open>setCurrentPageInModal\<close>; \<open>totalPages\<close> is
  \<open>contentPages.length\<close>. The page numbers are JavaScript numbers holding integers.
\<close>

definition handleNextPage :: "int \<Rightarrow> int \<Rightarrow> int" where
  "handleNextPage totalPages prev = min (prev + 1) totalPages"

definition handlePreviousPage :: "int \<Rightarrow> int" where
  "handlePreviousPage prev = max (prev - 1) 1"

section \<open>AnalysisModal: parseAnalysis\<close>

record titled_section =
  title :: jsstring
  content :: "jsstring list"

text \<open>\<open>/^(summary|key topics|questions|overview):?\s*$/i\<close>\<close>

definition re_keyword :: regex where
  "re_keyword =
     Then (Or (word_i ''summary'') (Or (word_i ''key topics'')
            (Or (word_i ''questions'') (word_i ''overview''))))
          (Then (Maybe (chr_i CHR '':'')) (Many (Class isWhiteSpace)))"

text \<open>\<open>/^\d+\.\s/i\<close>: "numbered list start".\<close>

definition re_numbered :: regex where
  "re_numbered = Then (Many1 (Class isDigit)) (Then (chr_i CHR ''.'') (Class isWhiteSpace))"

text \<open>\<open>/^- \s/i\<close>: "bullet point start"; a dash, a space and one more white space.\<close>

definition re_dash :: regex where
  "re_dash = Then (chr_i CHR ''-'') (Then (chr_i CHR '' '') (Class isWhiteSpace))"

text \<open>The condition of the \<open>if\<close> in the loop of \<open>parseAnalysis\<close>.\<close>

definition isSectionStart :: "jsstring \<Rightarrow> bool" where
  "isSectionStart line \<longleftrightarrow>
     matchesWhole re_keyword line \<or> matchesStart re_numbered line \<or> matchesStart re_dash line"

text \<open>
  The variables of the loop: \<open>sections\<close>, \<open>currentSectionTitle\<close> (\<open>None\<close> is
  \<open>null\<close>) and \<open>currentSectionContent\<close>.
\<close>

type_synonym parser = "titled_section list \<times> jsstring option \<times> jsstring list"

definition eachAnalysisLine :: "parser \<Rightarrow> jsstring \<Rightarrow> parser" where
  "eachAnalysisLine st line =
     (case st of (sections, currentSectionTitle, currentSectionContent) \<Rightarrow>
        if isSectionStart line
        then ((case currentSectionTitle of
                 None \<Rightarrow> sections
               | Some t \<Rightarrow> sections @ [\<lparr>title = t, content = currentSectionContent\<rparr>]),
              Some (trim (replace_colon line)),
              [])
        else (sections, currentSectionTitle, currentSectionContent @ [line]))"

definition parseAnalysis :: "jsstring \<Rightarrow> titled_section list" where
  "parseAnalysis text =
     (let lines = nonBlankLines text
      in case foldl eachAnalysisLine ([], None, []) lines of
           (sections, currentSectionTitle, currentSectionContent) \<Rightarrow>
             (case currentSectionTitle of
                Some t \<Rightarrow> sections @ [\<lparr>title = t, content = currentSectionContent\<rparr>]
              | None \<Rightarrow>
                  if length lines > 0
                  then sections @ [\<lparr>title = js ''Analysis'', content = lines\<rparr>]
                  else sections))"

text \<open>The line count of a page.\<close>

definition lineCount :: "jsstring \<Rightarrow> nat" where
  "lineCount page = length (pageLines page)"

text \<open>A page that may stand anywhere in the result: within both bounds.\<close>

definition pageOk :: "jsstring \<Rightarrow> bool" where
  "pageOk p \<longleftrightarrow> MIN_LINES_PER_PAGE \<le> lineCount p \<and> lineCount p \<le> LINES_PER_PAGE"

text \<open>
  Cutting a list into consecutive runs of \<open>m\<close> elements, the last run holding what
  is left. Used to describe the pages of a text without heading lines.
\<close>

function chunks :: "nat \<Rightarrow> 'a list \<Rightarrow> 'a list list" where
  "chunks m xs = (if m = 0 \<or> xs = [] then [] else take m xs # chunks m (drop m xs))"
  by pat_completeness auto
termination
  by (relation "measure (\<lambda>(m, xs). length xs)") auto

declare chunks.simps [simp del]

section \<open>The matcher decides the patterns\<close>

inductive_simps matches_Never: "matches Never u"
inductive_simps matches_Empty: "matches Empty u"
inductive_simps matches_Class: "matches (Class p) u"
inductive_simps matches_Then: "matches (Then r r') u"
inductive_simps matches_Or: "matches (Or r r') u"

lemma nullable_matches: "nullable r \<longleftrightarrow> matches r []"
  by (induction r) (auto simp: matches_Never matches_Empty matches_Class matches_Then matches_Or
                         intro: m_Many0)

lemma matches_Many_Cons:
  assumes "matches q w" and "q = Many r" and "w = c # u"
  shows "\<exists>u1 u2. u = u1 @ u2 \<and> matches r (c # u1) \<and> matches (Many r) u2"
  using assms
proof (induction arbitrary: u rule: matches.induct)
  case (m_Many1 r0 x y)
  show ?case
  proof (cases x)
    case Nil
    with m_Many1 show ?thesis by simp
  next
    case (Cons d x')
    with m_Many1.prems m_Many1.hyps show ?thesis by auto
  qed
qed simp_all

lemma matches_Then_Cons:
  "matches (Then r r') (c # u) \<longleftrightarrow>
     (\<exists>u1 u2. u = u1 @ u2 \<and> matches r (c # u1) \<and> matches r' u2)
     \<or> (matches r [] \<and> matches r' (c # u))"
  by (auto simp: matches_Then Cons_eq_append_conv)

lemma deriv_matches: "matches (deriv c r) u \<longleftrightarrow> matches r (c # u)"
proof (induction r arbitrary: u)
  case (Many r)
  have "matches (Then (deriv c r) (Many r)) u \<longleftrightarrow>
        (\<exists>u1 u2. u = u1 @ u2 \<and> matches r (c # u1) \<and> matches (Many r) u2)"
    by (simp add: matches_Then Many)
  also have "\<dots> \<longleftrightarrow> matches (Many r) (c # u)"
  proof
    assume "\<exists>u1 u2. u = u1 @ u2 \<and> matches r (c # u1) \<and> matches (Many r) u2"
    then obtain u1 u2 where "u = u1 @ u2" "matches r (c # u1)" "matches (Many r) u2" by blast
    with m_Many1 [of r "c # u1" u2] show "matches (Many r) (c # u)" by simp
  next
    assume "matches (Many r) (c # u)"
    then show "\<exists>u1 u2. u = u1 @ u2 \<and> matches r (c # u1) \<and> matches (Many r) u2"
      by (rule matches_Many_Cons) simp_all
  qed
  finally show ?case by simp
next
  case (Then r r')
  then show ?case
    by (simp add: matches_Then_Cons nullable_matches matches_Or) (auto simp: matches_Then)
qed (auto simp: matches_Never matches_Empty matches_Class matches_Or)

lemma accepts_matches: "accepts r u \<longleftrightarrow> matches r u"
  by (induction u arbitrary: r) (simp_all add: nullable_matches deriv_matches)

lemma matches_any: "matches (Many (Class (\<lambda>c. True))) u"
proof (induction u)
  case Nil
  show ?case by (rule m_Many0)
next
  case (Cons c u)
  from m_Many1 [OF m_Class [of "\<lambda>c. True" c] Cons] show ?case by simp
qed

lemma matchesWhole_matches: "matchesWhole r u \<longleftrightarrow> matches r u"
  by (simp add: matchesWhole_def accepts_matches)

lemma matchesStart_matches: "matchesStart r u \<longleftrightarrow> (\<exists>v w. u = v @ w \<and> matches r v)"
  by (auto simp: matchesStart_def accepts_matches matches_Then matches_any)

section \<open>Lines, pages and the join\<close>

lemma split_nl_not_Nil: "split_nl s \<noteq> []"
  by (induction s) (auto split: list.splits)

lemma split_nl_no_LF: "l \<in> set (split_nl s) \<Longrightarrow> LF \<notin> set l"
proof (induction s arbitrary: l)
  case Nil
  then show ?case by simp
next
  case (Cons c cs)
  show ?case
  proof (cases "c = LF")
    case True
    with Cons show ?thesis by auto
  next
    case False
    obtain piece pieces where sp: "split_nl cs = piece # pieces"
      using split_nl_not_Nil [of cs] by (cases "split_nl cs") auto
    with Cons.prems False have "l = c # piece \<or> l \<in> set pieces" by auto
    with Cons.IH sp False show ?thesis by auto
  qed
qed

lemma nonBlankLines_no_LF: "l \<in> set (nonBlankLines text) \<Longrightarrow> LF \<notin> set l"
  by (auto simp: nonBlankLines_def dest: split_nl_no_LF)

lemma trim_Nil: "trim [] = []"
  by (simp add: trim_def)

lemma nonBlankLines_not_Nil: "l \<in> set (nonBlankLines text) \<Longrightarrow> l \<noteq> []"
  by (auto simp: nonBlankLines_def trim_Nil)

lemma split_nl_line: "LF \<notin> set l \<Longrightarrow> split_nl l = [l]"
  by (induction l) auto

lemma split_nl_append_LF: "LF \<notin> set l \<Longrightarrow> split_nl (l @ LF # s) = l # split_nl s"
  by (induction l) auto

lemma split_join:
  "ls \<noteq> [] \<Longrightarrow> \<forall>l\<in>set ls. LF \<notin> set l \<Longrightarrow> split_nl (join_nl ls) = ls"
  by (induction ls rule: join_nl.induct) (auto simp: split_nl_line split_nl_append_LF)

lemma pageLines_join:
  "ls \<noteq> [] \<Longrightarrow> \<forall>l\<in>set ls. LF \<notin> set l \<Longrightarrow> pageLines (join_nl ls) = ls"
  by (simp add: pageLines_def split_join)

lemma join_nl_snoc: "join_nl (ls @ [l]) = (if ls = [] then l else join_nl ls @ LF # l)"
  by (induction ls rule: join_nl.induct) auto

lemma pageLines_join_min:
  "MIN_LINES_PER_PAGE \<le> length ls \<Longrightarrow> \<forall>l\<in>set ls. LF \<notin> set l \<Longrightarrow> pageLines (join_nl ls) = ls"
  by (rule pageLines_join) (auto simp: MIN_LINES_PER_PAGE_def)

lemma pageLines_join_snoc:
  "\<forall>l\<in>set ls. LF \<notin> set l \<Longrightarrow> LF \<notin> set l' \<Longrightarrow> pageLines (join_nl (ls @ [l'])) = ls @ [l']"
  by (rule pageLines_join) auto

lemma pageLines_line: "LF \<notin> set l \<Longrightarrow> pageLines l = [l]"
  by (simp add: pageLines_def split_nl_line)

lemma eachLine_lines:
  assumes "\<forall>l\<in>set cur. LF \<notin> set l" and "LF \<notin> set line"
  shows "case eachLine n (pages, cur) line index of
           (pages', cur') \<Rightarrow>
             concat (map pageLines pages') @ cur' = concat (map pageLines pages) @ cur @ [line]
             \<and> (\<forall>l\<in>set cur'. LF \<notin> set l)"
  using assms
  by (auto simp: eachLine_def breakBefore_def pushLine_def breakAfter_def
                 pageLines_join_min pageLines_join_snoc pageLines_line)

lemma forEach_lines:
  assumes "\<forall>l\<in>set cur. LF \<notin> set l" and "\<forall>l\<in>set rest. LF \<notin> set l"
  shows "case forEach n index rest (pages, cur) of
           (pages', cur') \<Rightarrow>
             concat (map pageLines pages') @ cur' = concat (map pageLines pages) @ cur @ rest
             \<and> (\<forall>l\<in>set cur'. LF \<notin> set l)"
  using assms
proof (induction rest arbitrary: index pages cur)
  case Nil
  then show ?case by simp
next
  case (Cons line rest)
  obtain pages1 cur1 where st: "eachLine n (pages, cur) line index = (pages1, cur1)"
    by (cases "eachLine n (pages, cur) line index") auto
  from eachLine_lines [where cur = cur and line = line and n = n and pages = pages and index = index]
    Cons.prems st
  have one: "concat (map pageLines pages1) @ cur1 = concat (map pageLines pages) @ cur @ [line]"
    and free: "\<forall>l\<in>set cur1. LF \<notin> set l" by auto
  from Cons.IH [OF free, where index = "index + 1" and pages = pages1] Cons.prems(2) one st
  show ?case by (auto split: prod.splits)
qed

lemma paginate_roundtrip:
  "concat (map pageLines (paginateContent text)) = nonBlankLines text"
proof -
  obtain pages cur where st:
    "forEach (length (nonBlankLines text)) 0 (nonBlankLines text) ([], []) = (pages, cur)"
    by (cases "forEach (length (nonBlankLines text)) 0 (nonBlankLines text) ([], [])") auto
  have "\<forall>l\<in>set (nonBlankLines text). LF \<notin> set l"
    by (simp add: nonBlankLines_no_LF)
  from forEach_lines [where cur = "[]" and rest = "nonBlankLines text" and pages = "[]"
      and n = "length (nonBlankLines text)" and index = 0] this st
  have eq: "concat (map pageLines pages) @ cur = nonBlankLines text"
    and free: "\<forall>l\<in>set cur. LF \<notin> set l" by auto
  show ?thesis
  proof (cases "cur = []")
    case True
    with eq st show ?thesis by (simp add: paginateContent_def)
  next
    case False
    with eq st free show ?thesis by (simp add: paginateContent_def pageLines_join)
  qed
qed

section \<open>Scenarios and page navigation\<close>

text \<open>
  C5. The line \<open>**Important**:\<close> is a heading for \<open>paginateContent\<close>, by the
  bold-and-colon pattern, and is not bold for the rendering, whose pattern ends
  right after the closing asterisks.
\<close>

theorem C5_important_heading_not_bold:
  "isHeading (js ''**Important**:'')
   \<and> matchesStart re_bold_colon (js ''**Important**:'')
   \<and> \<not> isBold (js ''**Important**:'')"
  by code_simp

text \<open>A hash mark is the first character of no pattern of \<open>parseAnalysis\<close>.\<close>

lemma hash_line_no_section_start: "\<not> isSectionStart (of_char CHR ''#'' # rest)"
proof -
  have k: "\<not> accepts re_keyword (of_char CHR ''#'' # rest)"
  proof -
    have "accepts re_keyword (of_char CHR ''#'' # rest)
          = accepts (deriv (of_char CHR ''#'') re_keyword) rest" by simp
    also have "\<dots> = False"
      by (simp add: re_keyword_def word_i_def chr_i_def toUpperAscii_def
                    accepts_matches matches_Then matches_Or matches_Never)
    finally show ?thesis by simp
  qed
  have n: "\<not> accepts (Then re_numbered (Many (Class (\<lambda>c. True)))) (of_char CHR ''#'' # rest)"
  proof -
    have "accepts (Then re_numbered (Many (Class (\<lambda>c. True)))) (of_char CHR ''#'' # rest)
          = accepts (deriv (of_char CHR ''#'') (Then re_numbered (Many (Class (\<lambda>c. True))))) rest"
      by simp
    also have "\<dots> = False"
      by (simp add: re_numbered_def Many1_def isDigit_def
                    accepts_matches matches_Then matches_Or matches_Never)
    finally show ?thesis by simp
  qed
  have d: "\<not> accepts (Then re_dash (Many (Class (\<lambda>c. True)))) (of_char CHR ''#'' # rest)"
  proof -
    have "accepts (Then re_dash (Many (Class (\<lambda>c. True)))) (of_char CHR ''#'' # rest)
          = accepts (deriv (of_char CHR ''#'') (Then re_dash (Many (Class (\<lambda>c. True))))) rest"
      by simp
    also have "\<dots> = False"
      by (simp add: re_dash_def chr_i_def toUpperAscii_def
                    accepts_matches matches_Then matches_Or matches_Never)
    finally show ?thesis by simp
  qed
  from k n d show ?thesis
    by (simp add: isSectionStart_def matchesWhole_def matchesStart_def)
qed

text \<open>
  C4, as the specification words it: the hash lines of
  \<open>## Intro / Line1 / Line2 / ## Topic A / Line3\<close> would open the sections
  \<open>Intro\<close> and \<open>Topic A\<close>. \<open>parseAnalysis\<close> does not return that.
\<close>

theorem C4_two_sections_counterexample:
  "parseAnalysis (js ''## Intro\<newline>Line1\<newline>Line2\<newline>## Topic A\<newline>Line3'')
   \<noteq> [\<lparr>title = js ''Intro'', content = [js ''Line1'', js ''Line2'']\<rparr>,
       \<lparr>title = js ''Topic A'', content = [js ''Line3'']\<rparr>]"
  by code_simp

text \<open>
  C4, amended. No line that starts with a hash mark starts a section in
  \<open>parseAnalysis\<close>, whatever follows the hash mark; so the five lines of the
  scenario fall back to the single section \<open>Analysis\<close>, whose content is the
  five lines as they are, hash lines and their markers included.
\<close>

theorem C4_hash_lines_fall_back_to_analysis:
  "\<not> isSectionStart (of_char CHR ''#'' # rest)
   \<and> parseAnalysis (js ''## Intro\<newline>Line1\<newline>Line2\<newline>## Topic A\<newline>Line3'')
       = [\<lparr>title = js ''Analysis'',
           content = [js ''## Intro'', js ''Line1'', js ''Line2'', js ''## Topic A'',
                      js ''Line3'']\<rparr>]"
proof -
  have "parseAnalysis (js ''## Intro\<newline>Line1\<newline>Line2\<newline>## Topic A\<newline>Line3'')
       = [\<lparr>title = js ''Analysis'',
           content = [js ''## Intro'', js ''Line1'', js ''Line2'', js ''## Topic A'',
                      js ''Line3'']\<rparr>]"
    by code_simp
  with hash_line_no_section_start [of rest] show ?thesis by blast
qed

text \<open>
  C9. With at least one page and the current page within \<open>1 .. totalPages\<close>, the
  next and the previous page are within \<open>1 .. totalPages\<close> too; next stays at
  \<open>totalPages\<close> and previous stays at \<open>1\<close>.
\<close>

theorem C9_navigation_stays_in_range:
  assumes "1 \<le> totalPages" and "1 \<le> current" and "current \<le> totalPages"
  shows "1 \<le> handleNextPage totalPages current
         \<and> handleNextPage totalPages current \<le> totalPages
         \<and> 1 \<le> handlePreviousPage current
         \<and> handlePreviousPage current \<le> totalPages
         \<and> handleNextPage totalPages totalPages = totalPages
         \<and> handlePreviousPage 1 = 1"
  using assms by (simp add: handleNextPage_def handlePreviousPage_def)

theorem C9_navigation_witness:
  "(1::int) \<le> 3 \<and> (3::int) \<le> 3
   \<and> handleNextPage 3 3 = 3 \<and> handlePreviousPage 3 = 2
   \<and> 1 \<le> handleNextPage 3 3 \<and> handleNextPage 3 3 \<le> 3
   \<and> 1 \<le> handlePreviousPage 3 \<and> handlePreviousPage 3 \<le> 3"
proof -
  have h1: "(1::int) \<le> 3" and h2: "(3::int) \<le> 3" by simp_all
  have ev: "handleNextPage 3 3 = 3 \<and> handlePreviousPage 3 = 2"
    by (simp add: handleNextPage_def handlePreviousPage_def)
  from C9_navigation_stays_in_range [OF h1 h1 h2] ev h1 h2 show ?thesis by blast
qed

section \<open>Degenerate input\<close>

text \<open>
  C7. A text without a non-blank line (the empty string among them) gives no page
  and no section. Both functions are total: no operation they use can throw.
\<close>

theorem C7_no_lines_no_pages_no_sections:
  assumes "nonBlankLines text = []"
  shows "paginateContent text = [] \<and> parseAnalysis text = []"
  using assms by (simp add: paginateContent_def parseAnalysis_def)

theorem C7_empty_string_witness:
  "nonBlankLines (js '''') = [] \<and> paginateContent (js '''') = [] \<and> parseAnalysis (js '''') = []"
proof -
  have h: "nonBlankLines (js '''') = []" by code_simp
  from C7_no_lines_no_pages_no_sections [OF h] h show ?thesis by blast
qed

section \<open>The pages hold the lines\<close>

text \<open>
  C1, as the specification words it: the lines of the pages would be the non-blank
  lines, each trimmed. The single line \<open>" a"\<close> keeps its leading space on its page.
\<close>

theorem C1_trimmed_lines_counterexample:
  "paginateContent (js '' a'') = [js '' a'']
   \<and> map trim (nonBlankLines (js '' a'')) = [js ''a'']
   \<and> concat (map pageLines (paginateContent (js '' a'')))
       \<noteq> map trim (nonBlankLines (js '' a''))"
  by code_simp

text \<open>
  C1, amended. The lines of all pages, in page order, are exactly the lines of the
  input that are not blank, in their order and as they are: \<open>trim\<close> decides which
  lines are blank and is not applied to the lines kept.
\<close>

theorem C1_pages_hold_non_blank_lines:
  "concat (map pageLines (paginateContent text))
   = filter (\<lambda>line. trim line \<noteq> []) (split_nl text)"
  using paginate_roundtrip [of "text"] by (simp add: nonBlankLines_def)

section \<open>Page sizes\<close>

lemma eachLine_sizes_mid:
  assumes "length cur < LINES_PER_PAGE"
    and "\<forall>l\<in>set cur. LF \<notin> set l" and "LF \<notin> set line"
    and "\<forall>p\<in>set pages. pageOk p"
    and "int index \<noteq> int n - 1"
  shows "case eachLine n (pages, cur) line index of
           (pages', cur') \<Rightarrow>
             length cur' < LINES_PER_PAGE \<and> (\<forall>l\<in>set cur'. LF \<notin> set l)
             \<and> (\<forall>p\<in>set pages'. pageOk p)"
  using assms
  by (auto simp: eachLine_def breakBefore_def pushLine_def breakAfter_def pageOk_def lineCount_def
                 pageLines_join_min pageLines_join_snoc pageLines_line
                 LINES_PER_PAGE_def MIN_LINES_PER_PAGE_def)

lemma eachLine_sizes_last:
  assumes "length cur < LINES_PER_PAGE"
    and "\<forall>l\<in>set cur. LF \<notin> set l" and "LF \<notin> set line"
    and "\<forall>p\<in>set pages. pageOk p"
    and "int index = int n - 1"
  shows "\<exists>ps final. eachLine n (pages, cur) line index = (ps @ [final], [])
           \<and> (\<forall>p\<in>set ps. pageOk p)
           \<and> 1 \<le> lineCount final \<and> lineCount final \<le> LINES_PER_PAGE"
proof (cases "isHeading line \<and> MIN_LINES_PER_PAGE \<le> length cur")
  case True
  with assms have "eachLine n (pages, cur) line index = ((pages @ [join_nl cur]) @ [join_nl [line]], [])"
    by (simp add: eachLine_def breakBefore_def pushLine_def breakAfter_def)
  moreover from True assms have "pageOk (join_nl cur)"
    by (simp add: pageOk_def lineCount_def pageLines_join_min)
  moreover from assms have "lineCount (join_nl [line]) = 1"
    by (simp add: lineCount_def pageLines_line)
  ultimately show ?thesis using assms(4)
    by (intro exI [of _ "pages @ [join_nl cur]"] exI [of _ "join_nl [line]"])
       (auto simp: LINES_PER_PAGE_def)
next
  case False
  with assms have "eachLine n (pages, cur) line index = (pages @ [join_nl (cur @ [line])], [])"
    by (auto simp: eachLine_def breakBefore_def pushLine_def breakAfter_def)
  moreover from assms have "lineCount (join_nl (cur @ [line])) = length cur + 1"
    by (simp add: lineCount_def pageLines_join_snoc)
  ultimately show ?thesis using assms(1,4)
    by (intro exI [of _ pages] exI [of _ "join_nl (cur @ [line])"]) auto
qed

lemma forEach_sizes:
  assumes "rest \<noteq> []" and "int index + int (length rest) = int n"
    and "length cur < LINES_PER_PAGE"
    and "\<forall>l\<in>set cur. LF \<notin> set l" and "\<forall>l\<in>set rest. LF \<notin> set l"
    and "\<forall>p\<in>set pages. pageOk p"
  shows "\<exists>ps final. forEach n index rest (pages, cur) = (ps @ [final], [])
           \<and> (\<forall>p\<in>set ps. pageOk p)
           \<and> 1 \<le> lineCount final \<and> lineCount final \<le> LINES_PER_PAGE"
  using assms
proof (induction rest arbitrary: index pages cur)
  case Nil
  then show ?case by simp
next
  case (Cons line rest)
  show ?case
  proof (cases "rest = []")
    case True
    with Cons.prems have "int index = int n - 1" by simp
    from eachLine_sizes_last [OF Cons.prems(3,4) _ Cons.prems(6) this, of line] Cons.prems(5) True
    show ?thesis by simp
  next
    case False
    with Cons.prems have mid: "int index \<noteq> int n - 1" by (cases rest) auto
    obtain pages1 cur1 where st: "eachLine n (pages, cur) line index = (pages1, cur1)"
      by (cases "eachLine n (pages, cur) line index") auto
    from eachLine_sizes_mid [OF Cons.prems(3,4) _ Cons.prems(6) mid, of line] Cons.prems(5) st
    have inv: "length cur1 < LINES_PER_PAGE" "\<forall>l\<in>set cur1. LF \<notin> set l" "\<forall>p\<in>set pages1. pageOk p"
      by auto
    from Cons.prems have idx: "int (index + 1) + int (length rest) = int n" by simp
    from Cons.IH [OF False idx inv(1,2) _ inv(3)] Cons.prems(5) st
    show ?thesis by simp
  qed
qed

lemma paginate_sizes:
  assumes "nonBlankLines text \<noteq> []"
  shows "\<exists>ps final. paginateContent text = ps @ [final]
           \<and> (\<forall>p\<in>set ps. pageOk p)
           \<and> 1 \<le> lineCount final \<and> lineCount final \<le> LINES_PER_PAGE"
proof -
  have "\<forall>l\<in>set (nonBlankLines text). LF \<notin> set l"
    by (simp add: nonBlankLines_no_LF)
  from forEach_sizes [OF assms, where index = 0 and n = "length (nonBlankLines text)"
      and cur = "[]" and pages = "[]"] this
  obtain ps final where "forEach (length (nonBlankLines text)) 0 (nonBlankLines text) ([], []) = (ps @ [final], [])"
    and "\<forall>p\<in>set ps. pageOk p" and "1 \<le> lineCount final" and "lineCount final \<le> LINES_PER_PAGE"
    by (auto simp: LINES_PER_PAGE_def)
  then show ?thesis by (auto simp: paginateContent_def)
qed

lemma forEach_short:
  assumes "rest \<noteq> []" and "int index + int (length rest) = int n"
    and "length cur + length rest < MIN_LINES_PER_PAGE"
  shows "forEach n index rest (pages, cur) = (pages @ [join_nl (cur @ rest)], [])"
  using assms
proof (induction rest arbitrary: index cur)
  case Nil
  then show ?case by simp
next
  case (Cons line rest)
  show ?case
  proof (cases "rest = []")
    case True
    with Cons.prems show ?thesis
      by (simp add: eachLine_def breakBefore_def pushLine_def breakAfter_def)
  next
    case False
    with Cons.prems have mid: "int index \<noteq> int n - 1" by (cases rest) auto
    with Cons.prems have st: "eachLine n (pages, cur) line index = (pages, cur @ [line])"
      by (simp add: eachLine_def breakBefore_def pushLine_def breakAfter_def
                    LINES_PER_PAGE_def MIN_LINES_PER_PAGE_def)
    from Cons.prems have idx: "int (index + 1) + int (length rest) = int n" by simp
    from Cons.prems have "length (cur @ [line]) + length rest < MIN_LINES_PER_PAGE" by simp
    from Cons.IH [OF False idx this] st show ?thesis by simp
  qed
qed

lemma paginate_short:
  assumes "nonBlankLines text \<noteq> []" and "length (nonBlankLines text) < MIN_LINES_PER_PAGE"
  shows "paginateContent text = [join_nl (nonBlankLines text)]"
  using forEach_short [OF assms(1), where index = 0 and n = "length (nonBlankLines text)"
      and cur = "[]" and pages = "[]"] assms(2)
  by (simp add: paginateContent_def)

section \<open>Texts without heading lines\<close>

lemma chunks_Nil: "chunks m [] = []"
  by (simp add: chunks.simps)

lemma chunks_short: "xs \<noteq> [] \<Longrightarrow> length xs \<le> m \<Longrightarrow> chunks m xs = [xs]"
  by (subst chunks.simps) (cases xs; auto simp: chunks_Nil)

lemma chunks_full: "length xs = m \<Longrightarrow> 0 < m \<Longrightarrow> chunks m (xs @ ys) = xs # chunks m ys"
  by (subst chunks.simps) auto

lemma chunks_length: "0 < m \<Longrightarrow> length (chunks m xs) = (length xs + m - 1) div m"
proof (induction m xs rule: chunks.induct)
  case (1 m xs)
  show ?case
  proof (cases "xs = []")
    case True
    with 1 show ?thesis by (simp add: chunks_Nil)
  next
    case False
    with 1 have IH: "length (chunks m (drop m xs)) = (length xs - m + m - 1) div m" by simp
    show ?thesis
    proof (cases "length xs \<le> m")
      case True
      with False 1(2) have "(length xs + m - 1) div m = 1"
        by (cases xs) (auto simp: div_eq_dividend_iff Suc_le_eq intro!: div_nat_eqI)
      with True False show ?thesis by (simp add: chunks_short)
    next
      case F: False
      then have "length xs + m - 1 = (length xs - m + m - 1) + m" using 1(2) by simp
      then have "(length xs + m - 1) div m = (length xs - m + m - 1) div m + 1"
        using 1(2) by (metis div_add_self2 less_numeral_extra(3))
      with False 1(2) IH show ?thesis by (subst chunks.simps) simp
    qed
  qed
qed

lemma chunks_nth:
  "k < length (chunks m xs) \<Longrightarrow> chunks m xs ! k = take m (drop (k * m) xs)"
proof (induction m xs arbitrary: k rule: chunks.induct)
  case (1 m xs)
  show ?case
  proof (cases "m = 0 \<or> xs = []")
    case True
    with 1(2) show ?thesis by (simp add: chunks.simps)
  next
    case False
    then have unf: "chunks m xs = take m xs # chunks m (drop m xs)"
      by (subst chunks.simps) simp
    show ?thesis
    proof (cases k)
      case 0
      with unf show ?thesis by simp
    next
      case (Suc j)
      with 1(2) unf have "j < length (chunks m (drop m xs))" by simp
      from 1(1) [OF False this] unf Suc show ?thesis by (simp add: add.commute)
    qed
  qed
qed

lemma chunks_parts: "c \<in> set (chunks m xs) \<Longrightarrow> c \<noteq> [] \<and> set c \<subseteq> set xs"
proof (induction m xs rule: chunks.induct)
  case (1 m xs)
  show ?case
  proof (cases "m = 0 \<or> xs = []")
    case True
    with 1(2) show ?thesis by (simp add: chunks.simps)
  next
    case False
    then have "chunks m xs = take m xs # chunks m (drop m xs)"
      by (subst chunks.simps) simp
    with 1(2) have "c = take m xs \<or> c \<in> set (chunks m (drop m xs))" by simp
    then show ?thesis
    proof
      assume "c = take m xs"
      with False show ?thesis by (auto dest: in_set_takeD)
    next
      assume "c \<in> set (chunks m (drop m xs))"
      from 1(1) [OF False this] show ?thesis by (auto dest: in_set_dropD)
    qed
  qed
qed

lemma forEach_plain:
  assumes "rest \<noteq> []" and "int index + int (length rest) = int n"
    and "length cur < LINES_PER_PAGE"
    and "\<forall>l\<in>set rest. \<not> isHeading l"
  shows "forEach n index rest (pages, cur)
         = (pages @ map join_nl (chunks LINES_PER_PAGE (cur @ rest)), [])"
  using assms
proof (induction rest arbitrary: index pages cur)
  case Nil
  then show ?case by simp
next
  case (Cons line rest)
  from Cons.prems have plain: "\<not> isHeading line" by simp
  show ?case
  proof (cases "rest = []")
    case True
    with Cons.prems plain show ?thesis
      by (simp add: eachLine_def breakBefore_def pushLine_def breakAfter_def chunks_short)
  next
    case False
    with Cons.prems have mid: "int index \<noteq> int n - 1" by (cases rest) auto
    from Cons.prems have idx: "int (index + 1) + int (length rest) = int n" by simp
    from Cons.prems have rest_plain: "\<forall>l\<in>set rest. \<not> isHeading l" by simp
    show ?thesis
    proof (cases "LINES_PER_PAGE \<le> length cur + 1")
      case True
      with Cons.prems have full: "length (cur @ [line]) = LINES_PER_PAGE" by simp
      from True plain have st:
        "eachLine n (pages, cur) line index = (pages @ [join_nl (cur @ [line])], [])"
        by (simp add: eachLine_def breakBefore_def pushLine_def breakAfter_def)
      have "chunks LINES_PER_PAGE ((cur @ [line]) @ rest)
            = (cur @ [line]) # chunks LINES_PER_PAGE rest"
        by (rule chunks_full [OF full]) (simp add: LINES_PER_PAGE_def)
      moreover from Cons.IH [OF False idx _ rest_plain, where cur = "[]"
          and pages = "pages @ [join_nl (cur @ [line])]"]
      have "forEach n (index + 1) rest (pages @ [join_nl (cur @ [line])], [])
            = ((pages @ [join_nl (cur @ [line])]) @ map join_nl (chunks LINES_PER_PAGE rest), [])"
        by (simp add: LINES_PER_PAGE_def)
      ultimately show ?thesis using st by simp
    next
      case F: False
      with plain mid have st: "eachLine n (pages, cur) line index = (pages, cur @ [line])"
        by (simp add: eachLine_def breakBefore_def pushLine_def breakAfter_def)
      from F have "length (cur @ [line]) < LINES_PER_PAGE" by simp
      from Cons.IH [OF False idx this rest_plain] st show ?thesis by simp
    qed
  qed
qed

lemma paginate_plain:
  assumes "\<forall>l\<in>set (nonBlankLines text). \<not> isHeading l"
  shows "paginateContent text = map join_nl (chunks LINES_PER_PAGE (nonBlankLines text))"
proof (cases "nonBlankLines text = []")
  case True
  then show ?thesis by (simp add: paginateContent_def chunks_Nil)
next
  case False
  from forEach_plain [OF False _ _ assms, where index = 0 and n = "length (nonBlankLines text)"
      and cur = "[]" and pages = "[]"]
  show ?thesis by (simp add: paginateContent_def LINES_PER_PAGE_def)
qed

lemma paginate_plain_nth:
  assumes "\<forall>l\<in>set (nonBlankLines text). \<not> isHeading l"
    and "k < length (paginateContent text)"
  shows "pageLines (paginateContent text ! k)
         = take LINES_PER_PAGE (drop (k * LINES_PER_PAGE) (nonBlankLines text))"
proof -
  let ?cs = "chunks LINES_PER_PAGE (nonBlankLines text)"
  from assms have k: "k < length ?cs" by (simp add: paginate_plain)
  then have "?cs ! k \<in> set ?cs" by simp
  from chunks_parts [OF this] have "?cs ! k \<noteq> []" and "\<forall>l\<in>set (?cs ! k). LF \<notin> set l"
    by (auto dest: nonBlankLines_no_LF)
  then have "pageLines (join_nl (?cs ! k)) = ?cs ! k" by (rule pageLines_join)
  with k assms(1) show ?thesis by (simp add: paginate_plain chunks_nth)
qed

lemma chunks_butlast: "c \<in> set (butlast (chunks m xs)) \<Longrightarrow> length c = m"
proof (induction m xs rule: chunks.induct)
  case (1 m xs)
  show ?case
  proof (cases "m = 0 \<or> xs = []")
    case True
    with 1(2) show ?thesis by (simp add: chunks.simps)
  next
    case False
    then have unf: "chunks m xs = take m xs # chunks m (drop m xs)"
      by (subst chunks.simps) simp
    show ?thesis
    proof (cases "chunks m (drop m xs) = []")
      case True
      with unf 1(2) show ?thesis by simp
    next
      case F: False
      then have "drop m xs \<noteq> []" by (auto simp: chunks_Nil)
      then have len: "length (take m xs) = m" by simp
      from unf F 1(2) have "c = take m xs \<or> c \<in> set (butlast (chunks m (drop m xs)))" by simp
      with len 1(1) [OF False] show ?thesis by blast
    qed
  qed
qed

lemma paginate_plain_butlast:
  assumes "\<forall>l\<in>set (nonBlankLines text). \<not> isHeading l"
    and "p \<in> set (butlast (paginateContent text))"
  shows "lineCount p = LINES_PER_PAGE"
proof -
  let ?cs = "chunks LINES_PER_PAGE (nonBlankLines text)"
  from assms have "p \<in> set (map join_nl (butlast ?cs))"
    by (simp add: paginate_plain map_butlast)
  then obtain c where c: "c \<in> set (butlast ?cs)" and p: "p = join_nl c" by auto
  from c have "c \<in> set ?cs" by (rule in_set_butlastD)
  from chunks_parts [OF this] have "c \<noteq> []" and "\<forall>l\<in>set c. LF \<notin> set l"
    by (auto dest: nonBlankLines_no_LF)
  then have "pageLines (join_nl c) = c" by (rule pageLines_join)
  with p chunks_butlast [OF c] show ?thesis by (simp add: lineCount_def)
qed

section \<open>The claims about page sizes\<close>

text \<open>
  C2. Whatever the input, no page has more than \<open>LINES_PER_PAGE\<close> (15) lines, and
  every page but the last has at least \<open>MIN_LINES_PER_PAGE\<close> (10) lines.
\<close>

theorem C2_page_sizes:
  "(\<forall>p\<in>set (paginateContent text). lineCount p \<le> LINES_PER_PAGE)
   \<and> (\<forall>p\<in>set (butlast (paginateContent text)). MIN_LINES_PER_PAGE \<le> lineCount p)"
proof (cases "nonBlankLines text = []")
  case True
  then show ?thesis
    by (simp add: paginateContent_def)
next
  case False
  from paginate_sizes [OF False] obtain ps final where
    "paginateContent text = ps @ [final]" and "\<forall>p\<in>set ps. pageOk p"
    and "lineCount final \<le> LINES_PER_PAGE" by blast
  then show ?thesis
    by (auto simp: pageOk_def)
qed


text \<open>Twelve heading lines: the eleventh closes a page of ten lines.\<close>

theorem C2_page_sizes_witness:
  "paginateContent (join_nl (replicate 12 (js ''# h'')))
     = [join_nl (replicate 10 (js ''# h'')), join_nl (replicate 2 (js ''# h''))]
   \<and> lineCount (join_nl (replicate 10 (js ''# h''))) \<le> LINES_PER_PAGE
   \<and> lineCount (join_nl (replicate 2 (js ''# h''))) \<le> LINES_PER_PAGE
   \<and> MIN_LINES_PER_PAGE \<le> lineCount (join_nl (replicate 10 (js ''# h'')))"
proof -
  have ev: "paginateContent (join_nl (replicate 12 (js ''# h'')))
              = [join_nl (replicate 10 (js ''# h'')), join_nl (replicate 2 (js ''# h''))]"
    by code_simp
  from C2_page_sizes [of "join_nl (replicate 12 (js ''# h''))"] show ?thesis
    unfolding ev by simp
qed

text \<open>
  C8. An input with a non-blank line gives at least one page; with fewer than
  \<open>MIN_LINES_PER_PAGE\<close> non-blank lines it gives exactly one page, holding them all.
\<close>

theorem C8_non_empty_input_has_pages:
  assumes "nonBlankLines text \<noteq> []"
  shows "paginateContent text \<noteq> []
         \<and> (length (nonBlankLines text) < MIN_LINES_PER_PAGE
              \<longrightarrow> length (paginateContent text) = 1
                  \<and> paginateContent text = [join_nl (nonBlankLines text)])"
proof -
  from paginate_sizes [OF assms] have "paginateContent text \<noteq> []" by auto
  moreover have "paginateContent text = [join_nl (nonBlankLines text)]"
    if "length (nonBlankLines text) < MIN_LINES_PER_PAGE"
    using paginate_short [OF assms that] .
  ultimately show ?thesis by simp
qed


theorem C8_two_lines_witness:
  "nonBlankLines (js ''one\<newline>   \<newline>two'') \<noteq> []
   \<and> length (nonBlankLines (js ''one\<newline>   \<newline>two'')) < MIN_LINES_PER_PAGE
   \<and> paginateContent (js ''one\<newline>   \<newline>two'') \<noteq> []
   \<and> length (paginateContent (js ''one\<newline>   \<newline>two'')) = 1"
proof -
  have h1: "nonBlankLines (js ''one\<newline>   \<newline>two'') \<noteq> []" by code_simp
  have h2: "length (nonBlankLines (js ''one\<newline>   \<newline>two'')) < MIN_LINES_PER_PAGE"
    by code_simp
  from C8_non_empty_input_has_pages [OF h1] h1 h2 show ?thesis by blast
qed

text \<open>
  C6. When no non-blank line matches a pattern of \<open>isHeading\<close> (hash heading,
  bullet or numbered marker, bold and colon), the pages are the consecutive runs of
  \<open>LINES_PER_PAGE\<close> lines: page \<open>k\<close> holds the lines from \<open>k * LINES_PER_PAGE\<close> on,
  at most \<open>LINES_PER_PAGE\<close> of them, so every page but the last has exactly
  \<open>LINES_PER_PAGE\<close> lines and the last one holds the remainder.
\<close>

theorem C6_plain_lines_fill_pages:
  assumes "\<forall>l\<in>set (nonBlankLines text). \<not> isHeading l"
  shows "length (paginateContent text)
           = (length (nonBlankLines text) + LINES_PER_PAGE - 1) div LINES_PER_PAGE
         \<and> (\<forall>k<length (paginateContent text).
               pageLines (paginateContent text ! k)
               = take LINES_PER_PAGE (drop (k * LINES_PER_PAGE) (nonBlankLines text)))
         \<and> (\<forall>p\<in>set (butlast (paginateContent text)). lineCount p = LINES_PER_PAGE)"
proof -
  have "length (paginateContent text)
        = (length (nonBlankLines text) + LINES_PER_PAGE - 1) div LINES_PER_PAGE"
    using assms by (simp add: paginate_plain chunks_length LINES_PER_PAGE_def)
  moreover have "\<forall>k<length (paginateContent text).
               pageLines (paginateContent text ! k)
               = take LINES_PER_PAGE (drop (k * LINES_PER_PAGE) (nonBlankLines text))"
    using paginate_plain_nth [OF assms] by blast
  moreover have "\<forall>p\<in>set (butlast (paginateContent text)). lineCount p = LINES_PER_PAGE"
    using paginate_plain_butlast [OF assms] by blast
  ultimately show ?thesis by blast
qed


text \<open>25 plain lines: two pages, of 15 and of 10 lines.\<close>

theorem C6_twenty_five_lines_witness:
  "filter isHeading (nonBlankLines (join_nl (replicate 25 (js ''plain text'')))) = []
   \<and> length (nonBlankLines (join_nl (replicate 25 (js ''plain text'')))) = 25
   \<and> length (paginateContent (join_nl (replicate 25 (js ''plain text'')))) = 2
   \<and> lineCount (paginateContent (join_nl (replicate 25 (js ''plain text''))) ! 0) = 15
   \<and> lineCount (paginateContent (join_nl (replicate 25 (js ''plain text''))) ! 1) = 10"
proof -
  let ?X = "join_nl (replicate 25 (js ''plain text''))"
  have h: "\<forall>l\<in>set (nonBlankLines ?X). \<not> isHeading l" by code_simp
  have n: "length (nonBlankLines ?X) = 25" by code_simp
  from C6_plain_lines_fill_pages [OF h]
  have len: "length (paginateContent ?X) = 2"
    and nth: "\<forall>k<length (paginateContent ?X).
               pageLines (paginateContent ?X ! k)
               = take LINES_PER_PAGE (drop (k * LINES_PER_PAGE) (nonBlankLines ?X))"
    by (simp_all add: n LINES_PER_PAGE_def)
  from nth len have "lineCount (paginateContent ?X ! 0) = 15"
    and "lineCount (paginateContent ?X ! 1) = 10"
    by (simp_all add: lineCount_def n LINES_PER_PAGE_def)
  moreover from h have "filter isHeading (nonBlankLines ?X) = []"
    by (simp add: filter_empty_conv)
  ultimately show ?thesis using n len by blast
qed

section \<open>The page break before a line\<close>

lemma join_nl_snoc_longer: "line \<noteq> [] \<Longrightarrow> length (join_nl cur) < length (join_nl (cur @ [line]))"
  by (simp add: join_nl_snoc)

lemma join_nl_snoc_neq: "line \<noteq> [] \<Longrightarrow> join_nl (cur @ [line]) \<noteq> join_nl cur"
  using join_nl_snoc_longer [of line cur] by auto

text \<open>
  C3, as the specification words it: a bullet line would not close the page before
  it. The line \<open>- item\<close> matches neither the hash pattern nor the bold-and-colon
  pattern, it is a bullet line for the rendering, and after ten lines it closes
  the page: the twelve lines below give a page of ten lines and a page of two.
\<close>

theorem C3_bullet_breaks_page_counterexample:
  "isBullet (js ''- item'')
   \<and> \<not> matchesWhole re_hash (js ''- item'')
   \<and> \<not> matchesStart re_bold_colon (js ''- item'')
   \<and> breakBefore ([], replicate 10 (js ''text'')) (js ''- item'')
       = ([join_nl (replicate 10 (js ''text''))], [])
   \<and> paginateContent (join_nl (replicate 10 (js ''text'') @ [js ''- item'', js ''more '']))
       = [join_nl (replicate 10 (js ''text'')), js ''- item\<newline>more '']"
  by code_simp

text \<open>
  C3, amended. The buffer is closed as a page before the line is appended if and
  only if the line matches one of the three patterns of \<open>isHeading\<close> (the hash
  heading, the bullet or numbered marker of \<open>isBullet\<close>, the bold text with a
  colon) and the buffer holds between \<open>MIN_LINES_PER_PAGE\<close> and \<open>LINES_PER_PAGE\<close>
  lines. Stated for the first \<open>if\<close> alone and for the whole loop body, where the
  page right after the pages so far is the buffer as it was in exactly that case.
\<close>

theorem C3_break_before_line:
  assumes "line \<noteq> []"
  shows "(breakBefore (pages, cur) line = (pages @ [join_nl cur], [])
           \<longleftrightarrow> (matchesWhole re_hash line \<or> isBullet line \<or> matchesStart re_bold_colon line)
                \<and> MIN_LINES_PER_PAGE \<le> length cur \<and> length cur \<le> LINES_PER_PAGE)
         \<and> (take (Suc (length pages)) (fst (eachLine n (pages, cur) line index))
               = pages @ [join_nl cur]
           \<longleftrightarrow> (matchesWhole re_hash line \<or> isBullet line \<or> matchesStart re_bold_colon line)
                \<and> MIN_LINES_PER_PAGE \<le> length cur \<and> length cur \<le> LINES_PER_PAGE)"
proof -
  let ?c = "(matchesWhole re_hash line \<or> isBullet line \<or> matchesStart re_bold_colon line)
                \<and> MIN_LINES_PER_PAGE \<le> length cur \<and> length cur \<le> LINES_PER_PAGE"
  have c: "?c \<longleftrightarrow> isHeading line \<and> MIN_LINES_PER_PAGE \<le> length cur \<and> length cur \<le> LINES_PER_PAGE"
    by (simp add: isHeading_def isBullet_def)
  have a: "breakBefore (pages, cur) line = (pages @ [join_nl cur], []) \<longleftrightarrow> ?c"
    unfolding c by (simp add: breakBefore_def)
  have b: "take (Suc (length pages)) (fst (eachLine n (pages, cur) line index))
               = pages @ [join_nl cur] \<longleftrightarrow> ?c"
  proof (cases ?c)
    case True
    then have "breakBefore (pages, cur) line = (pages @ [join_nl cur], [])"
      using a by blast
    then show ?thesis using True
      by (simp add: eachLine_def pushLine_def breakAfter_def)
  next
    case False
    then have "breakBefore (pages, cur) line = (pages, cur)"
      unfolding c by (auto simp: breakBefore_def)
    then have "fst (eachLine n (pages, cur) line index) = pages
               \<or> fst (eachLine n (pages, cur) line index) = pages @ [join_nl (cur @ [line])]"
      by (simp add: eachLine_def pushLine_def breakAfter_def)
    then show ?thesis using False join_nl_snoc_neq [OF assms, of cur]
      by (auto simp del: join_nl.simps)
  qed
  from a b show ?thesis by blast
qed

theorem C3_break_before_bullet_witness:
  "js ''- item'' \<noteq> []
   \<and> isBullet (js ''- item'')
   \<and> breakBefore ([], replicate 10 (js ''text'')) (js ''- item'')
       = ([] @ [join_nl (replicate 10 (js ''text''))], [])
   \<and> take (Suc (length ([] :: jsstring list)))
         (fst (eachLine 12 ([], replicate 10 (js ''text'')) (js ''- item'') 10))
       = [] @ [join_nl (replicate 10 (js ''text''))]"
proof -
  have h: "js ''- item'' \<noteq> []" by code_simp
  have b: "isBullet (js ''- item'')" by code_simp
  have w: "MIN_LINES_PER_PAGE \<le> length (replicate 10 (js ''text''))
           \<and> length (replicate 10 (js ''text'')) \<le> LINES_PER_PAGE"
    by (simp add: MIN_LINES_PER_PAGE_def LINES_PER_PAGE_def)
  from C3_break_before_line [OF h, of "[]" "replicate 10 (js ''text'')" 12 10] b w h
  show ?thesis by blast
qed

section \<open>Lines before the first section of an analysis\<close>

lemma analysis_plain_run:
  "\<forall>l\<in>set pre. \<not> isSectionStart l \<Longrightarrow>
   foldl eachAnalysisLine (secs, t, c) pre = (secs, t, c @ pre)"
  by (induction pre arbitrary: c) (auto simp: eachAnalysisLine_def)

lemma analysis_open_section:
  "\<exists>secs' t' c'.
     foldl eachAnalysisLine (secs, Some t, c) ls = (secs', Some t', c')
     \<and> map title (secs' @ [\<lparr>title = t', content = c'\<rparr>])
         = map title secs @ t # map (\<lambda>l. trim (replace_colon l)) (filter isSectionStart ls)
     \<and> concat (map content (secs' @ [\<lparr>title = t', content = c'\<rparr>]))
         = concat (map content secs) @ c @ filter (\<lambda>l. \<not> isSectionStart l) ls"
proof (induction ls arbitrary: secs t c)
  case Nil
  then show ?case by simp
next
  case (Cons l ls)
  show ?case
  proof (cases "isSectionStart l")
    case True
    then have st: "eachAnalysisLine (secs, Some t, c) l
                   = (secs @ [\<lparr>title = t, content = c\<rparr>], Some (trim (replace_colon l)), [])"
      by (simp add: eachAnalysisLine_def)
    from Cons.IH [of "secs @ [\<lparr>title = t, content = c\<rparr>]" "trim (replace_colon l)" "[]"]
    show ?thesis using True unfolding foldl_Cons st by auto
  next
    case False
    then have st: "eachAnalysisLine (secs, Some t, c) l = (secs, Some t, c @ [l])"
      by (simp add: eachAnalysisLine_def)
    from Cons.IH [of secs t "c @ [l]"]
    show ?thesis using False unfolding foldl_Cons st by auto
  qed
qed

lemma analysis_after_first_start:
  assumes "\<forall>l\<in>set pre. \<not> isSectionStart l" and "isSectionStart first"
  shows "foldl eachAnalysisLine ([], None, []) (pre @ first # rest)
         = foldl eachAnalysisLine ([], Some (trim (replace_colon first)), []) rest"
  using assms by (simp add: analysis_plain_run eachAnalysisLine_def)

lemma parseAnalysis_from_first_start:
  assumes "nonBlankLines text = pre @ first # rest"
    and "\<forall>l\<in>set pre. \<not> isSectionStart l" and "isSectionStart first"
  shows "\<exists>secs t c.
           foldl eachAnalysisLine ([], Some (trim (replace_colon first)), []) rest = (secs, Some t, c)
           \<and> parseAnalysis text = secs @ [\<lparr>title = t, content = c\<rparr>]"
proof -
  from analysis_open_section [of "[]" "trim (replace_colon first)" "[]" rest]
  obtain secs t c where
    "foldl eachAnalysisLine ([], Some (trim (replace_colon first)), []) rest = (secs, Some t, c)"
    by blast
  moreover from this analysis_after_first_start [OF assms(2,3), of rest] assms(1)
  have "foldl eachAnalysisLine ([], None, []) (nonBlankLines text) = (secs, Some t, c)"
    by simp
  then have "parseAnalysis text = secs @ [\<lparr>title = t, content = c\<rparr>]"
    by (simp add: parseAnalysis_def)
  ultimately show ?thesis by blast
qed

text \<open>
  C10. When the non-blank lines are \<open>pre @ first # rest\<close>, with \<open>first\<close> the first
  line that starts a section and \<open>pre\<close> not empty, the result is built from
  \<open>first # rest\<close> alone: the titles come from its section-start lines, the contents
  are its other lines, and the result is the one of a text without \<open>pre\<close>. So a
  line of \<open>pre\<close> is in no section (unless the same text occurs again in \<open>rest\<close>),
  and titles and contents together hold fewer lines than the input has.
\<close>

theorem C10_lines_before_first_section_dropped:
  assumes "nonBlankLines text = pre @ first # rest"
    and "pre \<noteq> []"
    and "\<forall>l\<in>set pre. \<not> isSectionStart l"
    and "isSectionStart first"
  shows "map title (parseAnalysis text)
           = map (\<lambda>l. trim (replace_colon l)) (filter isSectionStart (first # rest))
         \<and> concat (map content (parseAnalysis text)) = filter (\<lambda>l. \<not> isSectionStart l) rest
         \<and> (nonBlankLines text' = first # rest \<longrightarrow> parseAnalysis text = parseAnalysis text')
         \<and> (\<forall>l\<in>set pre. l \<notin> set rest \<longrightarrow> l \<notin> set (concat (map content (parseAnalysis text))))
         \<and> length (parseAnalysis text) + length (concat (map content (parseAnalysis text)))
             < length (nonBlankLines text)"
proof -
  from parseAnalysis_from_first_start [OF assms(1,3,4)] obtain secs t c where
    run: "foldl eachAnalysisLine ([], Some (trim (replace_colon first)), []) rest = (secs, Some t, c)"
    and out: "parseAnalysis text = secs @ [\<lparr>title = t, content = c\<rparr>]" by blast
  from analysis_open_section [of "[]" "trim (replace_colon first)" "[]" rest] run out assms(4)
  have titles: "map title (parseAnalysis text)
           = map (\<lambda>l. trim (replace_colon l)) (filter isSectionStart (first # rest))"
    and contents: "concat (map content (parseAnalysis text)) = filter (\<lambda>l. \<not> isSectionStart l) rest"
    by auto
  have same: "parseAnalysis text = parseAnalysis text'" if "nonBlankLines text' = first # rest"
  proof -
    from parseAnalysis_from_first_start [of text' "[]" first rest] that assms(4) run
    have "parseAnalysis text' = secs @ [\<lparr>title = t, content = c\<rparr>]" by auto
    with out show ?thesis by simp
  qed
  have absent: "\<forall>l\<in>set pre. l \<notin> set rest \<longrightarrow> l \<notin> set (concat (map content (parseAnalysis text)))"
    unfolding contents by auto
  have "length (map title (parseAnalysis text)) + length (concat (map content (parseAnalysis text)))
        = length (filter isSectionStart (first # rest))
          + length (filter (\<lambda>l. \<not> isSectionStart l) (first # rest))"
    unfolding titles contents using assms(4) by simp
  also have "\<dots> = length (first # rest)"
    by (rule sum_length_filter_compl)
  also have "\<dots> < length (nonBlankLines text)"
    using assms(1,2) by (cases pre) auto
  finally have fewer: "length (parseAnalysis text) + length (concat (map content (parseAnalysis text)))
             < length (nonBlankLines text)" by simp
  from titles contents same absent fewer show ?thesis by blast
qed

theorem C10_intro_line_dropped_witness:
  "nonBlankLines (js ''Some intro\<newline>Summary:\<newline>The text'')
     = [js ''Some intro''] @ js ''Summary:'' # [js ''The text'']
   \<and> [js ''Some intro''] \<noteq> []
   \<and> \<not> isSectionStart (js ''Some intro'')
   \<and> isSectionStart (js ''Summary:'')
   \<and> nonBlankLines (js ''Summary:\<newline>The text'') = js ''Summary:'' # [js ''The text'']
   \<and> parseAnalysis (js ''Some intro\<newline>Summary:\<newline>The text'')
       = [\<lparr>title = js ''Summary'', content = [js ''The text'']\<rparr>]
   \<and> parseAnalysis (js ''Some intro\<newline>Summary:\<newline>The text'')
       = parseAnalysis (js ''Summary:\<newline>The text'')
   \<and> concat (map content (parseAnalysis (js ''Some intro\<newline>Summary:\<newline>The text'')))
       = filter (\<lambda>l. \<not> isSectionStart l) [js ''The text'']"
proof -
  have h1: "nonBlankLines (js ''Some intro\<newline>Summary:\<newline>The text'')
     = [js ''Some intro''] @ js ''Summary:'' # [js ''The text'']" by code_simp
  have h2: "[js ''Some intro''] \<noteq> []" by simp
  have n3: "\<not> isSectionStart (js ''Some intro'')" by code_simp
  then have h3: "\<forall>l\<in>set [js ''Some intro'']. \<not> isSectionStart l" by simp
  have h4: "isSectionStart (js ''Summary:'')" by code_simp
  have h5: "nonBlankLines (js ''Summary:\<newline>The text'') = js ''Summary:'' # [js ''The text'']"
    by code_simp
  have ev: "parseAnalysis (js ''Some intro\<newline>Summary:\<newline>The text'')
       = [\<lparr>title = js ''Summary'', content = [js ''The text'']\<rparr>]" by code_simp
  from C10_lines_before_first_section_dropped [OF h1 h2 h3 h4, of "js ''Summary:\<newline>The text''"]
    h1 h2 n3 h4 h5 ev
  show ?thesis by blast
qed

end
